theory Spec2Isabelle
  imports Main "HOL-Library.Word" "HOL-Library.Sublist" "HOL-Library.Multiset"
    "HOL-Library.List_Lexorder"
begin

unbundle bit_operations_syntax

section \<open>Go values and run-time faults\<close>

text \<open>
  A Go \<^verbatim>\<open>[]byte\<close> is a list of 8-bit words. Every slice the modelled code handles is
  freshly made or handed out by the store with capacity equal to its length, so a slice
  expression faults exactly when it reaches past the length. A Go run-time panic is a
  value of type \<open>fault\<close>; a function that can panic returns \<open>fault + 'a\<close>.
\<close>

type_synonym byte = "8 word"

datatype fault = SliceBoundsOutOfRange | IndexOutOfRange | IntegerDivideByZero

text \<open>\<^verbatim>\<open>make([]byte, n)\<close>\<close>

definition make_bytes :: "nat \<Rightarrow> byte list" where
  "make_bytes n = replicate n 0"

text \<open>\<^verbatim>\<open>s[lo:]\<close>, \<^verbatim>\<open>s[:hi]\<close> and \<^verbatim>\<open>s[lo:hi]\<close>\<close>

definition slice_from :: "byte list \<Rightarrow> nat \<Rightarrow> fault + byte list" where
  "slice_from s lo = (if lo \<le> length s then Inr (drop lo s) else Inl SliceBoundsOutOfRange)"

definition slice_to :: "byte list \<Rightarrow> nat \<Rightarrow> fault + byte list" where
  "slice_to s hi = (if hi \<le> length s then Inr (take hi s) else Inl SliceBoundsOutOfRange)"

definition slice_range :: "byte list \<Rightarrow> nat \<Rightarrow> nat \<Rightarrow> fault + byte list" where
  "slice_range s lo hi =
     (if lo \<le> hi \<and> hi \<le> length s then Inr (drop lo (take hi s))
      else Inl SliceBoundsOutOfRange)"

text \<open>
  \<^verbatim>\<open>copy(dst[off:], src)\<close>: the bytes of \<open>src\<close> overwrite \<open>dst\<close> from \<open>off\<close> on, as many as
  fit; \<open>dst\<close> keeps its length. The result is the array after the write.
\<close>

definition write_at :: "byte list \<Rightarrow> nat \<Rightarrow> byte list \<Rightarrow> byte list" where
  "write_at dst off src =
     (let m = min (length dst - off) (length src)
      in take off dst @ take m src @ drop (off + m) dst)"

definition copy_at :: "byte list \<Rightarrow> nat \<Rightarrow> byte list \<Rightarrow> fault + byte list" where
  "copy_at dst off src =
     (if off \<le> length dst then Inr (write_at dst off src) else Inl SliceBoundsOutOfRange)"

text \<open>
  \<^verbatim>\<open>encoding/binary.BigEndian\<close>: the bytes stored by \<^verbatim>\<open>PutUint16/32/64\<close> and the value
  read by \<^verbatim>\<open>Uint16/32/64\<close>, which index the last byte first and so fault on a short
  slice.
\<close>

definition be16 :: "16 word \<Rightarrow> byte list" where
  "be16 v = [ucast (drop_bit 8 v), ucast v]"

definition be32 :: "32 word \<Rightarrow> byte list" where
  "be32 v = [ucast (drop_bit 24 v), ucast (drop_bit 16 v), ucast (drop_bit 8 v), ucast v]"

definition be64 :: "64 word \<Rightarrow> byte list" where
  "be64 v = [ucast (drop_bit 56 v), ucast (drop_bit 48 v), ucast (drop_bit 40 v),
             ucast (drop_bit 32 v), ucast (drop_bit 24 v), ucast (drop_bit 16 v),
             ucast (drop_bit 8 v), ucast v]"

definition PutUint16 :: "byte list \<Rightarrow> nat \<Rightarrow> 16 word \<Rightarrow> fault + byte list" where
  "PutUint16 b off v =
     (if \<not> off \<le> length b then Inl SliceBoundsOutOfRange
      else if \<not> 1 < length b - off then Inl IndexOutOfRange
      else Inr (take off b @ be16 v @ drop (off + 2) b))"

definition PutUint32 :: "byte list \<Rightarrow> nat \<Rightarrow> 32 word \<Rightarrow> fault + byte list" where
  "PutUint32 b off v =
     (if \<not> off \<le> length b then Inl SliceBoundsOutOfRange
      else if \<not> 3 < length b - off then Inl IndexOutOfRange
      else Inr (take off b @ be32 v @ drop (off + 4) b))"

definition PutUint64 :: "byte list \<Rightarrow> nat \<Rightarrow> 64 word \<Rightarrow> fault + byte list" where
  "PutUint64 b off v =
     (if \<not> off \<le> length b then Inl SliceBoundsOutOfRange
      else if \<not> 7 < length b - off then Inl IndexOutOfRange
      else Inr (take off b @ be64 v @ drop (off + 8) b))"

definition Uint16 :: "byte list \<Rightarrow> fault + 16 word" where
  "Uint16 b =
     (if \<not> 1 < length b then Inl IndexOutOfRange
      else Inr (ucast (b ! 1) OR push_bit 8 (ucast (b ! 0))))"

definition Uint32 :: "byte list \<Rightarrow> fault + 32 word" where
  "Uint32 b =
     (if \<not> 3 < length b then Inl IndexOutOfRange
      else Inr (ucast (b ! 3) OR push_bit 8 (ucast (b ! 2)) OR push_bit 16 (ucast (b ! 1))
                OR push_bit 24 (ucast (b ! 0))))"

definition Uint64 :: "byte list \<Rightarrow> fault + 64 word" where
  "Uint64 b =
     (if \<not> 7 < length b then Inl IndexOutOfRange
      else Inr (ucast (b ! 7) OR push_bit 8 (ucast (b ! 6)) OR push_bit 16 (ucast (b ! 5))
                OR push_bit 24 (ucast (b ! 4)) OR push_bit 32 (ucast (b ! 3))
                OR push_bit 40 (ucast (b ! 2)) OR push_bit 48 (ucast (b ! 1))
                OR push_bit 56 (ucast (b ! 0))))"


fun bytes_Compare :: "byte list \<Rightarrow> byte list \<Rightarrow> int" where
  "bytes_Compare [] [] = 0"
| "bytes_Compare [] (y # ys) = - 1"
| "bytes_Compare (x # xs) [] = 1"
| "bytes_Compare (x # xs) (y # ys) =
     (if x < y then - 1 else if y < x then 1 else bytes_Compare xs ys)"

section \<open>Search-ahead (server.go)\<close>

text \<open>The Go struct \<^verbatim>\<open>record\<close> of a search hit; an absent channel is the empty string.\<close>

record hit_record =
  Txid :: string
  Nout :: "32 word"
  Height :: "32 word"
  ClaimId :: string
  ChannelId :: string

text \<open>
  \<^verbatim>\<open>map[string]int\<close>: reading a missing key gives 0. Go's \<^verbatim>\<open>%\<close> truncates towards zero
  and panics on a zero divisor.
\<close>

type_synonym counters = "string \<rightharpoonup> int"

definition counter :: "counters \<Rightarrow> string \<Rightarrow> int" where
  "counter m k = (case m k of None \<Rightarrow> 0 | Some v \<Rightarrow> v)"

definition go_rem :: "int \<Rightarrow> int \<Rightarrow> fault + int" where
  "go_rem a b = (if b = 0 then Inl IntegerDivideByZero else Inr (sgn a * (\<bar>a\<bar> mod \<bar>b\<bar>)))"

text \<open>
  The loop \<^verbatim>\<open>for i := 0; i < nextPageHitsMaybeCheckLater.Size(); i++\<close>: the bound is read
  again on every round, after the \<^verbatim>\<open>PopLeft\<close> of the round before; a popped hit that is
  over the cap is not pushed back.
\<close>

fun drainLater ::
  "int \<Rightarrow> nat \<Rightarrow> hit_record list \<Rightarrow> hit_record list \<Rightarrow> counters
     \<Rightarrow> hit_record list \<times> hit_record list \<times> counters" where
  "drainLater perChannelPerPage i [] finalHits channelCounters = ([], finalHits, channelCounters)"
| "drainLater perChannelPerPage i (rec # later) finalHits channelCounters =
     (if i < length (rec # later)
      then (if perChannelPerPage > 0
               \<and> counter channelCounters (ChannelId rec) < perChannelPerPage
            then drainLater perChannelPerPage (i + 1) later (finalHits @ [rec])
                   (channelCounters(ChannelId rec \<mapsto> counter channelCounters (ChannelId rec) + 1))
            else drainLater perChannelPerPage (i + 1) later finalHits channelCounters)
      else (rec # later, finalHits, channelCounters))"

text \<open>The loop \<^verbatim>\<open>for !searchHitsQ.Empty()\<close>, with its \<^verbatim>\<open>break\<close> at a page boundary.\<close>

fun drainHits ::
  "int \<Rightarrow> int \<Rightarrow> hit_record list \<Rightarrow> hit_record list \<Rightarrow> hit_record list \<Rightarrow> counters
     \<Rightarrow> fault + (hit_record list \<times> hit_record list \<times> hit_record list \<times> counters)" where
  "drainHits pageSize perChannelPerPage [] later finalHits channelCounters =
     Inr ([], later, finalHits, channelCounters)"
| "drainHits pageSize perChannelPerPage (hit # searchHitsQ) later finalHits channelCounters =
     (if ChannelId hit = [] \<or> perChannelPerPage < 0
      then drainHits pageSize perChannelPerPage searchHitsQ later (finalHits @ [hit])
             channelCounters
      else if counter channelCounters (ChannelId hit) < perChannelPerPage
      then (case go_rem (int (length (finalHits @ [hit]))) pageSize of
              Inl e \<Rightarrow> Inl e
            | Inr r \<Rightarrow>
                if r = 0
                then Inr (searchHitsQ, later, finalHits @ [hit],
                          channelCounters(ChannelId hit \<mapsto>
                            counter channelCounters (ChannelId hit) + 1))
                else drainHits pageSize perChannelPerPage searchHitsQ later (finalHits @ [hit])
                       (channelCounters(ChannelId hit \<mapsto>
                          counter channelCounters (ChannelId hit) + 1)))
      else drainHits pageSize perChannelPerPage searchHitsQ (later @ [hit]) finalHits
             channelCounters)"

text \<open>
  The test at the head of the outer loop: \<open>Inr (Some c)\<close> goes on with the counters \<open>c\<close>
  (fresh ones at a page boundary), \<open>Inr None\<close> is the \<^verbatim>\<open>break\<close> on an incomplete page.
\<close>

definition pageCheck :: "int \<Rightarrow> hit_record list \<Rightarrow> counters \<Rightarrow> fault + counters option" where
  "pageCheck pageSize finalHits channelCounters =
     (if length finalHits > 0
      then (case go_rem (int (length finalHits)) pageSize of
              Inl e \<Rightarrow> Inl e
            | Inr r \<Rightarrow> if r = 0 then Inr (Some Map.empty) else Inr None)
      else Inr (Some channelCounters))"

text \<open>
  The outer loop. Whether it ends is a matter of proof, so it is a partial function:
  \<open>None\<close> stands for a loop that never returns, \<open>Some (Inl e)\<close> for a panic and
  \<open>Some (Inr hits)\<close> for the returned slice.
\<close>

partial_function (option) searchLoop ::
  "int \<Rightarrow> int \<Rightarrow> hit_record list \<Rightarrow> hit_record list \<Rightarrow> hit_record list \<Rightarrow> counters
     \<Rightarrow> (fault + hit_record list) option" where
  "searchLoop pageSize perChannelPerPage searchHitsQ later finalHits channelCounters =
     (if searchHitsQ \<noteq> [] \<or> later \<noteq> []
      then (case pageCheck pageSize finalHits channelCounters of
              Inl e \<Rightarrow> Some (Inl e)
            | Inr None \<Rightarrow> Some (Inr finalHits)
            | Inr (Some channelCounters1) \<Rightarrow>
                (case drainLater perChannelPerPage 0 later finalHits channelCounters1 of
                   (later2, finalHits2, channelCounters2) \<Rightarrow>
                     (case drainHits pageSize perChannelPerPage searchHitsQ later2 finalHits2
                             channelCounters2 of
                        Inl e \<Rightarrow> Some (Inl e)
                      | Inr (searchHitsQ3, later3, finalHits3, channelCounters3) \<Rightarrow>
                          searchLoop pageSize perChannelPerPage searchHitsQ3 later3 finalHits3
                            channelCounters3)))
      else Some (Inr finalHits))"

declare searchLoop.simps [code]

definition searchAhead ::
  "hit_record list \<Rightarrow> int \<Rightarrow> int \<Rightarrow> (fault + hit_record list) option" where
  "searchAhead searchHits pageSize perChannelPerPage =
     searchLoop pageSize perChannelPerPage searchHits [] [] Map.empty"

text \<open>
  For stating the search-ahead claims: a hit with a claim and a channel, the number of
  hits of a channel in a list, and the window of \<open>n\<close> items that starts at item \<open>i\<close>.
\<close>

definition exampleHit :: "string \<Rightarrow> string \<Rightarrow> hit_record" where
  "exampleHit claim channel =
     \<lparr>Txid = [], Nout = 0, Height = 0, ClaimId = claim, ChannelId = channel\<rparr>"

definition nullChannel :: "hit_record \<Rightarrow> bool" where
  "nullChannel h \<longleftrightarrow> ChannelId h = []"

definition channelCount :: "string \<Rightarrow> hit_record list \<Rightarrow> nat" where
  "channelCount ch xs = length (filter (\<lambda>h. ChannelId h = ch) xs)"

definition window :: "nat \<Rightarrow> nat \<Rightarrow> 'a list \<Rightarrow> 'a list" where
  "window i n xs = take n (drop i xs)"

text \<open>
  The loop invariants of the proofs below. \<open>fairInv\<close>: up to a page boundary \<open>s\<close> every
  page is within the cap, and from \<open>s\<close> on the counters bound the hits of each channel.
  \<open>keepInv\<close>: the three queues together hold hits of the input only, hits without a
  channel are never deferred and keep their order, and input is left over only at a page
  boundary.
\<close>

definition fairInv :: "nat \<Rightarrow> int \<Rightarrow> hit_record list \<Rightarrow> counters \<Rightarrow> bool" where
  "fairInv p cap finalHits c \<longleftrightarrow>
     (\<exists>s\<le>length finalHits. p dvd s
        \<and> (\<forall>j ch. ch \<noteq> [] \<longrightarrow> int (channelCount ch (window (j * p) p (take s finalHits))) \<le> cap)
        \<and> (\<forall>ch. ch \<noteq> [] \<longrightarrow>
              int (channelCount ch (drop s finalHits)) \<le> counter c ch \<and> counter c ch \<le> cap))"

definition keepInv ::
  "hit_record list \<Rightarrow> int \<Rightarrow> hit_record list \<Rightarrow> hit_record list \<Rightarrow> hit_record list \<Rightarrow> bool" where
  "keepInv hits pageSize q later finalHits \<longleftrightarrow>
     mset finalHits + mset later + mset q \<subseteq># mset hits
     \<and> filter nullChannel finalHits @ filter nullChannel q = filter nullChannel hits
     \<and> (\<forall>h\<in>set later. \<not> nullChannel h)
     \<and> (q \<noteq> [] \<longrightarrow> finalHits = [] \<or> go_rem (int (length finalHits)) pageSize = Inr 0)"

section \<open>The iteration engine (db.go)\<close>

text \<open>
  Modelled from the spec: the store and its iterator (packages \<^verbatim>\<open>rocksdbwrap\<close> and
  \<^verbatim>\<open>grocksdb\<close>) are not among the sources. Section 5 of the specification orders a
  sequence by the store's byte order, so the store is the list of its rows in ascending
  key order and an iterator is a position in it: \<open>Seek\<close> moves to the first row whose key
  is not below the target, \<open>Next\<close> moves one row on, and reading the key of an iterator
  that has left the rows is not defined by the store (\<open>None\<close> here).
\<close>

type_synonym row = "byte list \<times> byte list"







record PrefixRow =
  Prefix :: "byte list option"
  DB :: "row list"





















section \<open>The UTXO row codec (db.go)\<close>

record UTXOKey =
  Prefix :: "byte list"
  HashX :: "byte list"
  TxNum :: "32 word"
  Nout :: "16 word"

record UTXOValue =
  Amount :: "64 word"

text \<open>
  \<^verbatim>\<open>PackKey\<close>. The constant \<^verbatim>\<open>prefixes.UTXO\<close> lives in a package that is not part of the
  sources at hand; only its length is used, and it is the parameter \<open>UTXO\<close> here.
\<close>

definition PackKey :: "byte list \<Rightarrow> UTXOKey \<Rightarrow> fault + byte list" where
  "PackKey UTXO k =
     (let prefixLen = length UTXO;
          n = prefixLen + 11 + 4 + 2;
          key = make_bytes n
      in (case copy_at key 0 (Prefix k) of
            Inl e \<Rightarrow> Inl e
          | Inr key1 \<Rightarrow>
             (case copy_at key1 prefixLen (HashX k) of
                Inl e \<Rightarrow> Inl e
              | Inr key2 \<Rightarrow>
                 (case PutUint32 key2 (prefixLen + 11) (TxNum k) of
                    Inl e \<Rightarrow> Inl e
                  | Inr key3 \<Rightarrow> PutUint16 key3 (prefixLen + 15) (Nout k)))))"

text \<open>
  \<^verbatim>\<open>UTXOKeyPackPartial\<close>: the clamp, the loop that sums the field widths and the loop
  that writes the fields, both running \<open>i\<close> from 0 to \<open>nFields\<close> inclusive.
\<close>

function sizeLoop :: "int \<Rightarrow> int \<Rightarrow> nat \<Rightarrow> nat" where
  "sizeLoop i nFields n =
     (if i \<le> nFields
      then sizeLoop (i + 1) nFields
             (if i = 1 then n + 11 else if i = 2 then n + 4 else if i = 3 then n + 2 else n)
      else n)"
  by pat_completeness auto
termination
  by (relation "measure (\<lambda>(i, nFields, n). nat (nFields + 1 - i))") auto

definition packField :: "UTXOKey \<Rightarrow> nat \<Rightarrow> int \<Rightarrow> byte list \<Rightarrow> fault + byte list" where
  "packField k prefixLen i key =
     (if i = 0 then copy_at key 0 (Prefix k)
      else if i = 1 then copy_at key prefixLen (HashX k)
      else if i = 2 then PutUint32 key (prefixLen + 11) (TxNum k)
      else if i = 3 then PutUint16 key (prefixLen + 15) (Nout k)
      else Inr key)"

function packLoop :: "UTXOKey \<Rightarrow> nat \<Rightarrow> int \<Rightarrow> int \<Rightarrow> byte list \<Rightarrow> fault + byte list" where
  "packLoop k prefixLen i nFields key =
     (if i \<le> nFields
      then (case packField k prefixLen i key of
              Inl e \<Rightarrow> Inl e
            | Inr key' \<Rightarrow> packLoop k prefixLen (i + 1) nFields key')
      else Inr key)"
  by pat_completeness auto
termination
  by (relation "measure (\<lambda>(k, prefixLen, i, nFields, key). nat (nFields + 1 - i))") auto

declare sizeLoop.simps [simp del] packLoop.simps [simp del]

definition UTXOKeyPackPartial :: "byte list \<Rightarrow> UTXOKey \<Rightarrow> int \<Rightarrow> fault + byte list" where
  "UTXOKeyPackPartial UTXO k nFields0 =
     (let nFields1 = (if nFields0 > 3 then 3 else nFields0);
          nFields = (if nFields1 < 0 then 0 else nFields1);
          prefixLen = length UTXO;
          n = sizeLoop 0 nFields prefixLen;
          key = make_bytes n
      in packLoop k prefixLen 0 nFields key)"

text \<open>\<^verbatim>\<open>UTXOKeyUnpack\<close>: the four fields are sliced off in the order the literal lists them.\<close>

definition UTXOKeyUnpack :: "byte list \<Rightarrow> fault + UTXOKey" where
  "UTXOKeyUnpack key =
     (case slice_to key 1 of
        Inl e \<Rightarrow> Inl e
      | Inr p \<Rightarrow>
         (case slice_range key 1 12 of
            Inl e \<Rightarrow> Inl e
          | Inr h \<Rightarrow>
             (case slice_from key 12 of
                Inl e \<Rightarrow> Inl e
              | Inr t \<Rightarrow>
                 (case Uint32 t of
                    Inl e \<Rightarrow> Inl e
                  | Inr tx \<Rightarrow>
                     (case slice_from key 16 of
                        Inl e \<Rightarrow> Inl e
                      | Inr u \<Rightarrow>
                         (case Uint16 u of
                            Inl e \<Rightarrow> Inl e
                          | Inr nout \<Rightarrow>
                              Inr \<lparr>Prefix = p, HashX = h, TxNum = tx, Nout = nout\<rparr>))))))"

definition PackValue :: "UTXOValue \<Rightarrow> fault + byte list" where
  "PackValue k = PutUint64 (make_bytes 8) 0 (Amount k)"

definition UTXOValueUnpack :: "byte list \<Rightarrow> fault + UTXOValue" where
  "UTXOValueUnpack v =
     (case Uint64 v of Inl e \<Rightarrow> Inl e | Inr a \<Rightarrow> Inr \<lparr>Amount = a\<rparr>)"

text \<open>
  The records the codec claims range over: a legal UTXO key has a one-byte prefix and an
  11-byte hashX (the widths of \<open>tx_num\<close>, \<open>nout\<close> and \<open>amount\<close> are in their types).
  \<open>schema_less\<close> is the order the schema declares: hashX bytewise, then \<open>tx_num\<close>, then
  \<open>nout\<close>, numbers compared unsigned.
\<close>

definition legalUTXOKey :: "UTXOKey \<Rightarrow> bool" where
  "legalUTXOKey k \<longleftrightarrow> length (Prefix k) = 1 \<and> length (HashX k) = 11"

definition schema_less :: "UTXOKey \<Rightarrow> UTXOKey \<Rightarrow> bool" where
  "schema_less r1 r2 \<longleftrightarrow>
     bytes_Compare (HashX r1) (HashX r2) < 0
     \<or> (HashX r1 = HashX r2
        \<and> (TxNum r1 < TxNum r2 \<or> (TxNum r1 = TxNum r2 \<and> Nout r1 < Nout r2)))"

text \<open>A key used in the examples below.\<close>

definition exampleKey :: UTXOKey where
  "exampleKey =
     \<lparr>Prefix = [117], HashX = [1, 2, 3, 4, 5, 6, 7, 8, 9, 10, 11], TxNum = 258, Nout = 3\<rparr>"


section \<open>Properties of the codec\<close>

subsection \<open>Writes into a byte array\<close>

lemma length_be [simp]: "length (be16 a) = 2" "length (be32 b) = 4" "length (be64 c) = 8"
  by (simp_all add: be16_def be32_def be64_def)

lemma length_make_bytes [simp]: "length (make_bytes n) = n"
  by (simp add: make_bytes_def)

lemma take_make_bytes: "n \<le> m \<Longrightarrow> take n (make_bytes m) = make_bytes n"
  by (simp add: make_bytes_def min_absorb2)

lemma length_write_at [simp]: "length (write_at dst off src) = length dst"
  unfolding write_at_def Let_def by simp

lemma take_write_at_below:
  "n \<le> off \<Longrightarrow> off \<le> length dst \<Longrightarrow> take n (write_at dst off src) = take n dst"
  unfolding write_at_def Let_def by (simp add: min_absorb2)

lemma write_at_fits:
  "off + length src \<le> length dst \<Longrightarrow> write_at dst off src = take off dst @ src @ drop (off + length src) dst"
proof -
  assume a: "off + length src \<le> length dst"
  then have "min (length dst - off) (length src) = length src" by simp
  then show ?thesis unfolding write_at_def Let_def by simp
qed

lemma take_write_at_above:
  assumes "off \<le> n" "n \<le> length dst"
  shows "take n (write_at dst off src) = write_at (take n dst) off src"
proof (cases "off + length src \<le> n")
  case True
  then have "write_at (take n dst) off src = take off (take n dst) @ src @ drop (off + length src) (take n dst)"
    using assms by (simp add: write_at_fits)
  moreover have "write_at dst off src = take off dst @ src @ drop (off + length src) dst"
    using True assms by (simp add: write_at_fits)
  ultimately show ?thesis using True assms by (simp add: min_absorb2 drop_take)
next
  case False
  then have m1: "min (length (take n dst) - off) (length src) = n - off"
    using assms by simp
  have m2: "n - off \<le> min (length dst - off) (length src)"
    using False assms by linarith
  have "take n (write_at dst off src) = take off dst @ take (n - off) src"
    unfolding write_at_def Let_def using assms m2 False by (simp add: min_absorb2)
  moreover have "write_at (take n dst) off src = take off dst @ take (n - off) src"
    unfolding write_at_def Let_def m1 using assms by (simp add: min_absorb2)
  ultimately show ?thesis by simp
qed

lemma PutUint16_write: "off + 2 \<le> length b \<Longrightarrow> PutUint16 b off v = Inr (write_at b off (be16 v))"
  by (simp add: PutUint16_def write_at_fits)

lemma PutUint32_write: "off + 4 \<le> length b \<Longrightarrow> PutUint32 b off v = Inr (write_at b off (be32 v))"
  by (simp add: PutUint32_def write_at_fits)

lemma PutUint64_write: "off + 8 \<le> length b \<Longrightarrow> PutUint64 b off v = Inr (write_at b off (be64 v))"
  by (simp add: PutUint64_def write_at_fits)

lemma PackKey_writes:
  "PackKey UTXO k =
     Inr (write_at (write_at (write_at (write_at (make_bytes (length UTXO + 17)) 0 (Prefix k))
            (length UTXO) (HashX k)) (length UTXO + 11) (be32 (TxNum k)))
            (length UTXO + 15) (be16 (Nout k)))"
  by (simp add: PackKey_def Let_def copy_at_def PutUint32_write PutUint16_write add.commute)

lemma Partial3:
  "UTXOKeyPackPartial UTXO k 3 =
     Inr (write_at (write_at (write_at (write_at (make_bytes (length UTXO + 17)) 0 (Prefix k))
            (length UTXO) (HashX k)) (length UTXO + 11) (be32 (TxNum k)))
            (length UTXO + 15) (be16 (Nout k)))"
  by (simp add: UTXOKeyPackPartial_def Let_def sizeLoop.simps packLoop.simps packField_def
      copy_at_def PutUint32_write PutUint16_write add.commute)

lemma Partial2:
  "UTXOKeyPackPartial UTXO k 2 =
     Inr (write_at (write_at (write_at (make_bytes (length UTXO + 15)) 0 (Prefix k))
            (length UTXO) (HashX k)) (length UTXO + 11) (be32 (TxNum k)))"
  by (simp add: UTXOKeyPackPartial_def Let_def sizeLoop.simps packLoop.simps packField_def
      copy_at_def PutUint32_write PutUint16_write add.commute)

lemma Partial1:
  "UTXOKeyPackPartial UTXO k 1 =
     Inr (write_at (write_at (make_bytes (length UTXO + 11)) 0 (Prefix k))
            (length UTXO) (HashX k))"
  by (simp add: UTXOKeyPackPartial_def Let_def sizeLoop.simps packLoop.simps packField_def
      copy_at_def PutUint32_write PutUint16_write add.commute)

lemma Partial0:
  "UTXOKeyPackPartial UTXO k 0 = Inr (write_at (make_bytes (length UTXO)) 0 (Prefix k))"
  by (simp add: UTXOKeyPackPartial_def Let_def sizeLoop.simps packLoop.simps packField_def
      copy_at_def PutUint32_write PutUint16_write add.commute)

lemma PackKey_legal:
  assumes "length UTXO = 1" "length (Prefix k) = 1" "length (HashX k) = 11"
  shows "PackKey UTXO k = Inr (Prefix k @ HashX k @ be32 (TxNum k) @ be16 (Nout k))"
  using assms by (simp add: PackKey_writes write_at_fits make_bytes_def)

subsection \<open>Big-endian numbers\<close>

lemma bit_byte:
  "k + 8 \<le> LENGTH('a) \<Longrightarrow>
   bit (push_bit k (ucast (ucast (drop_bit k (v :: 'a::len word)) :: byte)) :: 'a word) n
     \<longleftrightarrow> k \<le> n \<and> n < k + 8 \<and> bit v n"
  by (auto simp: bit_simps)

lemma bit_byte_low:
  "8 \<le> LENGTH('a) \<Longrightarrow>
   bit (ucast (ucast (v :: 'a::len word) :: byte) :: 'a word) n \<longleftrightarrow> n < 8 \<and> bit v n"
  by (auto simp: bit_simps)

lemma join16:
  "ucast (ucast v :: byte) OR push_bit 8 (ucast (ucast (drop_bit 8 v) :: byte)) = (v :: 16 word)"
proof (rule bit_word_eqI)
  fix n assume "n < LENGTH(16)"
  then have "n < 8 \<or> (8 \<le> n \<and> n < 16)"
    by simp linarith
  then show "bit (ucast (ucast v :: byte) OR push_bit 8 (ucast (ucast (drop_bit 8 v) :: byte))
               :: 16 word) n = bit v n"
    unfolding bit_or_iff bit_byte_low [where 'a = 16, simplified]
      bit_byte [where 'a = 16 and k = 8, simplified]
    by blast
qed

lemma join32:
  "ucast (ucast v :: byte) OR push_bit 8 (ucast (ucast (drop_bit 8 v) :: byte))
     OR push_bit 16 (ucast (ucast (drop_bit 16 v) :: byte))
     OR push_bit 24 (ucast (ucast (drop_bit 24 v) :: byte)) = (v :: 32 word)"
proof (rule bit_word_eqI)
  fix n assume "n < LENGTH(32)"
  then have "n < 8 \<or> (8 \<le> n \<and> n < 16) \<or> (16 \<le> n \<and> n < 24) \<or> (24 \<le> n \<and> n < 32)"
    by simp linarith
  then show "bit (ucast (ucast v :: byte) OR push_bit 8 (ucast (ucast (drop_bit 8 v) :: byte))
               OR push_bit 16 (ucast (ucast (drop_bit 16 v) :: byte))
               OR push_bit 24 (ucast (ucast (drop_bit 24 v) :: byte)) :: 32 word) n = bit v n"
    unfolding bit_or_iff bit_byte_low [where 'a = 32, simplified]
      bit_byte [where 'a = 32 and k = 8, simplified]
      bit_byte [where 'a = 32 and k = 16, simplified]
      bit_byte [where 'a = 32 and k = 24, simplified]
    by blast
qed

lemma join64:
  "ucast (ucast v :: byte) OR push_bit 8 (ucast (ucast (drop_bit 8 v) :: byte))
     OR push_bit 16 (ucast (ucast (drop_bit 16 v) :: byte))
     OR push_bit 24 (ucast (ucast (drop_bit 24 v) :: byte))
     OR push_bit 32 (ucast (ucast (drop_bit 32 v) :: byte))
     OR push_bit 40 (ucast (ucast (drop_bit 40 v) :: byte))
     OR push_bit 48 (ucast (ucast (drop_bit 48 v) :: byte))
     OR push_bit 56 (ucast (ucast (drop_bit 56 v) :: byte)) = (v :: 64 word)"
proof (rule bit_word_eqI)
  fix n assume "n < LENGTH(64)"
  then have "n < 8 \<or> (8 \<le> n \<and> n < 16) \<or> (16 \<le> n \<and> n < 24) \<or> (24 \<le> n \<and> n < 32)
     \<or> (32 \<le> n \<and> n < 40) \<or> (40 \<le> n \<and> n < 48) \<or> (48 \<le> n \<and> n < 56)
     \<or> (56 \<le> n \<and> n < 64)"
    by simp linarith
  then show "bit (ucast (ucast v :: byte) OR push_bit 8 (ucast (ucast (drop_bit 8 v) :: byte))
               OR push_bit 16 (ucast (ucast (drop_bit 16 v) :: byte))
               OR push_bit 24 (ucast (ucast (drop_bit 24 v) :: byte))
               OR push_bit 32 (ucast (ucast (drop_bit 32 v) :: byte))
               OR push_bit 40 (ucast (ucast (drop_bit 40 v) :: byte))
               OR push_bit 48 (ucast (ucast (drop_bit 48 v) :: byte))
               OR push_bit 56 (ucast (ucast (drop_bit 56 v) :: byte)) :: 64 word) n = bit v n"
    unfolding bit_or_iff bit_byte_low [where 'a = 64, simplified]
      bit_byte [where 'a = 64 and k = 8, simplified]
      bit_byte [where 'a = 64 and k = 16, simplified]
      bit_byte [where 'a = 64 and k = 24, simplified]
      bit_byte [where 'a = 64 and k = 32, simplified]
      bit_byte [where 'a = 64 and k = 40, simplified]
      bit_byte [where 'a = 64 and k = 48, simplified]
      bit_byte [where 'a = 64 and k = 56, simplified]
    by blast
qed

lemma Uint16_be16: "Uint16 (be16 v @ r) = Inr v"
  by (simp add: Uint16_def be16_def join16)

lemma Uint32_be32: "Uint32 (be32 v @ r) = Inr v"
  by (simp add: Uint32_def be32_def join32)

lemma Uint64_be64: "Uint64 (be64 v @ r) = Inr v"
  by (simp add: Uint64_def be64_def join64)

lemma UTXOKeyUnpack_packed:
  assumes "length p = 1" "length h = 11"
  shows "UTXOKeyUnpack (p @ h @ be32 t @ be16 n) = Inr \<lparr>Prefix = p, HashX = h, TxNum = t, Nout = n\<rparr>"
  using assms
  by (simp add: UTXOKeyUnpack_def slice_to_def slice_range_def slice_from_def
      Uint32_be32 Uint16_be16 [of n "[]", simplified])

lemma PackValue_eq: "PackValue v = Inr (be64 (Amount v))"
  by (simp add: PackValue_def PutUint64_def make_bytes_def)

lemma UTXOValueUnpack_packed: "UTXOValueUnpack (be64 a) = Inr \<lparr>Amount = a\<rparr>"
  by (simp add: UTXOValueUnpack_def Uint64_be64 [of a "[]", simplified])

subsection \<open>Byte order\<close>

lemma unat_byte_of_low: "unat (ucast (v :: 'a::len word) :: byte) = unat v mod 256"
  by (simp add: unsigned_ucast_eq take_bit_eq_mod)

lemma lex_less_iff:
  fixes x y m :: nat
  assumes "0 < m"
  shows "x < y \<longleftrightarrow> x div m < y div m \<or> (x div m = y div m \<and> x mod m < y mod m)"
proof -
  have x: "x = m * (x div m) + x mod m" and y: "y = m * (y div m) + y mod m"
    by simp_all
  have rx: "x mod m < m" and ry: "y mod m < m" using assms by simp_all
  show ?thesis
  proof (cases "x div m = y div m")
    case True
    then show ?thesis using x y by (metis nat_add_left_cancel_less less_irrefl)
  next
    case False
    show ?thesis
    proof (cases "x div m < y div m")
      case True
      then have "Suc (x div m) \<le> y div m" by simp
      then have "m * Suc (x div m) \<le> m * (y div m)" by (rule mult_le_mono2)
      then have "m * (x div m) + m \<le> m * (y div m)" by simp
      then have "x < y" using x y rx by linarith
      then show ?thesis using True by simp
    next
      case F2: False
      then have "Suc (y div m) \<le> x div m" using False by simp
      then have "m * Suc (y div m) \<le> m * (x div m)" by (rule mult_le_mono2)
      then have "m * (y div m) + m \<le> m * (x div m)" by simp
      then have "y < x" using x y ry by linarith
      then show ?thesis using F2 False by simp
    qed
  qed
qed

lemma lex_eq_iff:
  fixes x y m :: nat
  shows "x = y \<longleftrightarrow> x div m = y div m \<and> x mod m = y mod m"
  by (metis div_mult_mod_eq)

lemma nat_lex2:
  fixes x y :: nat
  assumes "x < y" "y < 65536"
  shows "x div 256 mod 256 < y div 256 mod 256 \<or> (x div 256 mod 256 = y div 256 mod 256 \<and>
           x mod 256 < y mod 256)"
proof -
  have "x div 256 < 256" "y div 256 < 256" using assms by simp_all
  then have small: "x div 256 mod 256 = x div 256" "y div 256 mod 256 = y div 256"
    by simp_all
  have "x div 256 < y div 256 \<or> (x div 256 = y div 256 \<and> x mod 256 < y mod 256)"
    using assms(1) lex_less_iff [of 256 x y] by simp
  then show ?thesis unfolding small .
qed

lemma nat_lex4:
  fixes x y :: nat
  assumes "x < y" "y < 4294967296"
  shows "x div 16777216 mod 256 < y div 16777216 mod 256 \<or>
         (x div 16777216 mod 256 = y div 16777216 mod 256 \<and>
          (x div 65536 mod 256 < y div 65536 mod 256 \<or>
           (x div 65536 mod 256 = y div 65536 mod 256 \<and>
            (x div 256 mod 256 < y div 256 mod 256 \<or>
             (x div 256 mod 256 = y div 256 mod 256 \<and> x mod 256 < y mod 256)))))"
proof -
  define x1 where "x1 = x div 256"
  define y1 where "y1 = y div 256"
  define x2 where "x2 = x1 div 256"
  define y2 where "y2 = y1 div 256"
  define x3 where "x3 = x2 div 256"
  define y3 where "y3 = y2 div 256"
  have dx: "x div 65536 = x2" "x div 16777216 = x3" "x div 256 = x1"
    unfolding x3_def x2_def x1_def by (simp_all add: div_mult2_eq [symmetric])
  have dy: "y div 65536 = y2" "y div 16777216 = y3" "y div 256 = y1"
    unfolding y3_def y2_def y1_def by (simp_all add: div_mult2_eq [symmetric])
  have "y3 < 256" "x3 < 256" using assms unfolding dx [symmetric] dy [symmetric] by simp_all
  then have small: "x3 mod 256 = x3" "y3 mod 256 = y3" by simp_all
  have l0: "x < y \<longleftrightarrow> x1 < y1 \<or> (x1 = y1 \<and> x mod 256 < y mod 256)"
    unfolding x1_def y1_def by (rule lex_less_iff) simp
  have l1: "x1 < y1 \<longleftrightarrow> x2 < y2 \<or> (x2 = y2 \<and> x1 mod 256 < y1 mod 256)"
    unfolding x2_def y2_def by (rule lex_less_iff) simp
  have l2: "x2 < y2 \<longleftrightarrow> x3 < y3 \<or> (x3 = y3 \<and> x2 mod 256 < y2 mod 256)"
    unfolding x3_def y3_def by (rule lex_less_iff) simp
  have e1: "x1 = y1 \<longleftrightarrow> x2 = y2 \<and> x1 mod 256 = y1 mod 256"
    unfolding x2_def y2_def by (rule lex_eq_iff)
  have e2: "x2 = y2 \<longleftrightarrow> x3 = y3 \<and> x2 mod 256 = y2 mod 256"
    unfolding x3_def y3_def by (rule lex_eq_iff)
  show ?thesis
    unfolding dx dy small using assms(1) l0 l1 l2 e1 e2 by blast
qed

lemma cmp4:
  "bytes_Compare [a0, a1, a2, a3] [b0, b1, b2, b3] < 0 \<longleftrightarrow>
     a0 < b0 \<or> (a0 = b0 \<and> (a1 < b1 \<or> (a1 = b1 \<and> (a2 < b2 \<or> (a2 = b2 \<and> a3 < b3)))))"
  by auto

lemma cmp2:
  "bytes_Compare [a0, a1] [b0, b1] < 0 \<longleftrightarrow> a0 < b0 \<or> (a0 = b0 \<and> a1 < b1)"
  by auto

lemma unat_byte_of_drop:
  "unat (ucast (drop_bit k (v :: 'a::len word)) :: byte) = (unat v div 2 ^ k) mod 256"
proof -
  have "unat (ucast (drop_bit k v) :: byte) = take_bit 8 (unat (drop_bit k v))"
    by (simp add: unsigned_ucast_eq)
  also have "\<dots> = take_bit 8 (drop_bit k (unat v))"
    by (simp only: unat_drop_bit_eq)
  also have "\<dots> = (unat v div 2 ^ k) mod 256"
    by (simp add: take_bit_eq_mod drop_bit_eq_div)
  finally show ?thesis .
qed

lemma be32_mono:
  assumes "a < b"
  shows "bytes_Compare (be32 a) (be32 b) < 0"
proof -
  have ab: "unat a < unat b" using assms by (simp add: word_less_nat_alt)
  have b: "unat b < 4294967296" using unsigned_less [of b, where 'a = nat] by simp
  show ?thesis
    unfolding be32_def cmp4 word_less_nat_alt word_unat_eq_iff
    apply (simp only: unat_byte_of_drop)
    apply (simp only: unat_byte_of_low)
    using nat_lex4 [OF ab b] apply simp
    done
qed

lemma be16_mono:
  assumes "a < b"
  shows "bytes_Compare (be16 a) (be16 b) < 0"
proof -
  have ab: "unat a < unat b" using assms by (simp add: word_less_nat_alt)
  have b: "unat b < 65536" using unsigned_less [of b, where 'a = nat] by simp
  show ?thesis
    unfolding be16_def cmp2 word_less_nat_alt word_unat_eq_iff
    apply (simp only: unat_byte_of_drop)
    apply (simp only: unat_byte_of_low)
    using nat_lex2 [OF ab b] apply simp
    done
qed

lemma bytes_Compare_same [simp]: "bytes_Compare a a = 0"
  by (induction a) simp_all

lemma bytes_Compare_append:
  "length a = length b \<Longrightarrow>
   bytes_Compare (a @ x) (b @ y) = (if bytes_Compare a b = 0 then bytes_Compare x y else bytes_Compare a b)"
  by (induction a b rule: list_induct2) simp_all

subsection \<open>The codec claims\<close>

lemma Partial_take:
  "UTXOKeyPackPartial UTXO k 1 = map_sum id (take (length UTXO + 11)) (PackKey UTXO k)"
  "UTXOKeyPackPartial UTXO k 2 = map_sum id (take (length UTXO + 15)) (PackKey UTXO k)"
  "UTXOKeyPackPartial UTXO k 3 = PackKey UTXO k"
  by (simp_all add: Partial1 Partial2 Partial3 PackKey_writes take_write_at_below
      take_write_at_above take_make_bytes)

lemma length_PackKey: "PackKey UTXO k = Inr b \<Longrightarrow> length b = length UTXO + 17"
  by (auto simp: PackKey_writes)

lemma Partial_clamp:
  "UTXOKeyPackPartial UTXO r m = UTXOKeyPackPartial UTXO r (max 0 (min 3 m))"
  by (simp add: UTXOKeyPackPartial_def Let_def max_def min_def)

text \<open>
  Claim C6, as amended. For every record and every \<open>n\<close> from 1 to 3 the partial pack of
  the first \<open>n\<close> fields is a prefix of the full pack of the key; it is a strict prefix
  for \<open>n < 3\<close> and the whole key for \<open>n = 3\<close>. For every \<open>m\<close> the partial pack of \<open>m\<close>
  fields is the partial pack of \<open>m\<close> clamped to the range from 0 to 3.
\<close>

theorem partial_pack_prefix:
  "(1 \<le> n \<and> n \<le> 3 \<longrightarrow>
      (\<exists>p b. UTXOKeyPackPartial UTXO r n = Inr p \<and> PackKey UTXO r = Inr b
             \<and> prefix p b \<and> (strict_prefix p b \<longleftrightarrow> n < 3)))
   \<and> UTXOKeyPackPartial UTXO r m = UTXOKeyPackPartial UTXO r (max 0 (min 3 m))"
proof (intro conjI impI)
  assume n: "1 \<le> n \<and> n \<le> 3"
  obtain b where b: "PackKey UTXO r = Inr b" by (simp add: PackKey_writes)
  have len: "length b = length UTXO + 17" using b by (rule length_PackKey)
  from n have "n = 1 \<or> n = 2 \<or> n = 3" by arith
  then show "\<exists>p b. UTXOKeyPackPartial UTXO r n = Inr p \<and> PackKey UTXO r = Inr b
             \<and> prefix p b \<and> (strict_prefix p b \<longleftrightarrow> n < 3)"
  proof (elim disjE)
    assume "n = 1"
    then show ?thesis using b len
      by (auto simp: Partial_take take_is_prefix strict_prefix_def)
  next
    assume "n = 2"
    then show ?thesis using b len
      by (auto simp: Partial_take take_is_prefix strict_prefix_def)
  next
    assume "n = 3"
    then show ?thesis using b by (simp add: Partial_take)
  qed
next
  show "UTXOKeyPackPartial UTXO r m = UTXOKeyPackPartial UTXO r (max 0 (min 3 m))"
    by (rule Partial_clamp)
qed

text \<open>
  Claim C1. For every legal UTXO record (one-byte prefix, 11-byte hashX, 32-bit
  \<open>tx_num\<close>, 16-bit \<open>nout\<close>, 64-bit amount) packing succeeds and unpacking the packed
  bytes returns the record, for keys and for values, and \<open>PackKey\<close> and \<open>PackValue\<close> are
  injective over such records.
\<close>

theorem utxo_roundtrip:
  assumes "length UTXO = 1" "legalUTXOKey k" "legalUTXOKey k'"
  shows "(\<exists>b. PackKey UTXO k = Inr b \<and> UTXOKeyUnpack b = Inr k)
       \<and> (\<exists>b. PackValue v = Inr b \<and> UTXOValueUnpack b = Inr v)
       \<and> (PackKey UTXO k = PackKey UTXO k' \<longrightarrow> k = k')
       \<and> (PackValue v = PackValue v' \<longrightarrow> v = v')"
proof -
  have rt: "\<exists>b. PackKey UTXO x = Inr b \<and> UTXOKeyUnpack b = Inr x" if "legalUTXOKey x" for x
    using that assms(1) by (simp add: legalUTXOKey_def PackKey_legal UTXOKeyUnpack_packed)
  have rtv: "\<exists>b. PackValue x = Inr b \<and> UTXOValueUnpack b = Inr x" for x
    by (simp add: PackValue_eq UTXOValueUnpack_packed)
  have "k = k'" if "PackKey UTXO k = PackKey UTXO k'"
    using rt [OF assms(2)] rt [OF assms(3)] that by auto
  moreover have "v = v'" if "PackValue v = PackValue v'"
    using rtv [of v] rtv [of v'] that by auto
  ultimately show ?thesis using rt [OF assms(2)] rtv [of v] by blast
qed

text \<open>
  Claim C7. Packing preserves order: of two legal records with the same one-byte prefix,
  the one that is smaller in the schema's field order (hashX, then \<open>tx_num\<close>, then
  \<open>nout\<close>, unsigned) has the smaller packed key in lexicographic byte order.
\<close>

theorem pack_monotone:
  assumes "length UTXO = 1" "legalUTXOKey r1" "legalUTXOKey r2" "Prefix r1 = Prefix r2"
    and "schema_less r1 r2"
  shows "\<exists>b1 b2. PackKey UTXO r1 = Inr b1 \<and> PackKey UTXO r2 = Inr b2 \<and> bytes_Compare b1 b2 < 0"
proof -
  have l: "length (Prefix r1) = 1" "length (HashX r1) = 11" "length (Prefix r2) = 1" "length (HashX r2) = 11"
    using assms(2,3) by (simp_all add: legalUTXOKey_def)
  have b1: "PackKey UTXO r1 = Inr (Prefix r1 @ HashX r1 @ be32 (TxNum r1) @ be16 (Nout r1))"
    using assms(1) l by (simp add: PackKey_legal)
  have b2: "PackKey UTXO r2 = Inr (Prefix r1 @ HashX r2 @ be32 (TxNum r2) @ be16 (Nout r2))"
    using assms(1,4) l by (simp add: PackKey_legal)
  have "bytes_Compare (HashX r1 @ be32 (TxNum r1) @ be16 (Nout r1))
          (HashX r2 @ be32 (TxNum r2) @ be16 (Nout r2)) < 0"
    using assms(5) be32_mono [of "TxNum r1" "TxNum r2"] be16_mono [of "Nout r1" "Nout r2"] l
    by (auto simp: schema_less_def bytes_Compare_append)
  then have "bytes_Compare (Prefix r1 @ HashX r1 @ be32 (TxNum r1) @ be16 (Nout r1))
          (Prefix r1 @ HashX r2 @ be32 (TxNum r2) @ be16 (Nout r2)) < 0"
    by (simp add: bytes_Compare_append)
  then show ?thesis using b1 b2 by simp
qed

text \<open>
  Claim C8, as amended. \<open>UTXOKeyUnpack\<close> has no error result and does not look at the
  prefix byte: on fewer than 18 bytes it panics (slice bounds below 12 bytes, index out
  of range from 12 to 17), and on 18 bytes or more it returns a record whose prefix is
  the first byte, whatever that byte is.
\<close>

theorem unpack_key_faults:
  "(length key < 12 \<longrightarrow> UTXOKeyUnpack key = Inl SliceBoundsOutOfRange)
   \<and> (12 \<le> length key \<and> length key < 18 \<longrightarrow> UTXOKeyUnpack key = Inl IndexOutOfRange)
   \<and> (18 \<le> length key \<longrightarrow>
        (\<exists>t n. Uint32 (drop 12 key) = Inr t \<and> Uint16 (drop 16 key) = Inr n
           \<and> UTXOKeyUnpack key =
               Inr \<lparr>Prefix = take 1 key, HashX = drop 1 (take 12 key), TxNum = t, Nout = n\<rparr>))"
  by (auto simp: UTXOKeyUnpack_def slice_to_def slice_range_def slice_from_def Uint32_def Uint16_def)

lemma exampleKey_legal: "legalUTXOKey exampleKey"
  by (simp add: legalUTXOKey_def exampleKey_def)

lemma PackKey_example:
  "PackKey [117] exampleKey = Inr [117, 1, 2, 3, 4, 5, 6, 7, 8, 9, 10, 11, 0, 0, 1, 2, 0, 3]"
  by (simp add: PackKey_legal exampleKey_def be32_def be16_def drop_bit_eq_div)

text \<open>
  Claim C1 at the example key and the amount 100.
\<close>

theorem utxo_roundtrip_witness:
  "length [117 :: byte] = 1 \<and> legalUTXOKey exampleKey
   \<and> PackKey [117] exampleKey = Inr [117, 1, 2, 3, 4, 5, 6, 7, 8, 9, 10, 11, 0, 0, 1, 2, 0, 3]
   \<and> UTXOKeyUnpack [117, 1, 2, 3, 4, 5, 6, 7, 8, 9, 10, 11, 0, 0, 1, 2, 0, 3] = Inr exampleKey
   \<and> (\<exists>b. PackValue \<lparr>Amount = 100\<rparr> = Inr b \<and> UTXOValueUnpack b = Inr \<lparr>Amount = 100\<rparr>)"
  using utxo_roundtrip [of "[117]" exampleKey exampleKey "\<lparr>Amount = 100\<rparr>" "\<lparr>Amount = 100\<rparr>"]
    exampleKey_legal PackKey_example
  by auto

text \<open>
  Claim C6 as stated fails at three fields: the partial pack is the whole key, which is
  not a strict prefix of itself.
\<close>

theorem partial_pack_strict_counterexample:
  "UTXOKeyPackPartial [117] exampleKey 3 = Inr [117, 1, 2, 3, 4, 5, 6, 7, 8, 9, 10, 11, 0, 0, 1, 2, 0, 3]
   \<and> PackKey [117] exampleKey = Inr [117, 1, 2, 3, 4, 5, 6, 7, 8, 9, 10, 11, 0, 0, 1, 2, 0, 3]
   \<and> \<not> strict_prefix [117, 1, 2, 3, 4, 5, 6, 7, 8, 9, 10, 11, 0, 0, 1, 2, 0, 3 :: byte]
                       [117, 1, 2, 3, 4, 5, 6, 7, 8, 9, 10, 11, 0, 0, 1, 2, 0, 3]"
  by (simp add: Partial_take PackKey_example)

text \<open>
  Claim C6, as amended, at two fields of the example key and at the count 7.
\<close>

theorem partial_pack_prefix_witness:
  "(1 :: int) \<le> 2 \<and> (2 :: int) \<le> 3
   \<and> UTXOKeyPackPartial [117] exampleKey 2 = Inr [117, 1, 2, 3, 4, 5, 6, 7, 8, 9, 10, 11, 0, 0, 1, 2]
   \<and> strict_prefix [117, 1, 2, 3, 4, 5, 6, 7, 8, 9, 10, 11, 0, 0, 1, 2 :: byte]
                    [117, 1, 2, 3, 4, 5, 6, 7, 8, 9, 10, 11, 0, 0, 1, 2, 0, 3]
   \<and> UTXOKeyPackPartial [117] exampleKey 7 = UTXOKeyPackPartial [117] exampleKey 3"
  using partial_pack_prefix [of 2 "[117]" exampleKey 7]
  by (simp add: Partial_take PackKey_example)

text \<open>
  Claim C7 at the example key and the same key with \<open>tx_num\<close> 259 and \<open>nout\<close> 0.
\<close>

theorem pack_monotone_witness:
  "length [117 :: byte] = 1 \<and> legalUTXOKey exampleKey \<and> legalUTXOKey (exampleKey\<lparr>TxNum := 259, Nout := 0\<rparr>)
   \<and> Prefix exampleKey = Prefix (exampleKey\<lparr>TxNum := 259, Nout := 0\<rparr>)
   \<and> schema_less exampleKey (exampleKey\<lparr>TxNum := 259, Nout := 0\<rparr>)
   \<and> (\<exists>b1 b2. PackKey [117] exampleKey = Inr b1
          \<and> PackKey [117] (exampleKey\<lparr>TxNum := 259, Nout := 0\<rparr>) = Inr b2
          \<and> bytes_Compare b1 b2 < 0)"
proof -
  have l: "legalUTXOKey (exampleKey\<lparr>TxNum := 259, Nout := 0\<rparr>)"
    by (simp add: legalUTXOKey_def exampleKey_def)
  have s: "schema_less exampleKey (exampleKey\<lparr>TxNum := 259, Nout := 0\<rparr>)"
    by (simp add: schema_less_def exampleKey_def)
  have p: "Prefix exampleKey = Prefix (exampleKey\<lparr>TxNum := 259, Nout := 0\<rparr>)"
    by simp
  show ?thesis
    using pack_monotone [OF _ exampleKey_legal l p s, of "[117]"] exampleKey_legal l s by simp
qed

text \<open>
  Claim C8 as stated fails: the empty input panics instead of yielding an error value,
  and two 18-byte inputs that differ in their first byte both unpack to a record, so at
  least one of them is accepted with a prefix byte that is not the row's.
\<close>

theorem unpack_key_counterexample:
  "UTXOKeyUnpack [] = Inl SliceBoundsOutOfRange
   \<and> UTXOKeyUnpack [0, 0, 0, 0, 0, 0, 0, 0, 0, 0, 0, 0, 0, 0, 0, 0, 0, 0]
       = Inr \<lparr>Prefix = [0], HashX = [0, 0, 0, 0, 0, 0, 0, 0, 0, 0, 0], TxNum = 0, Nout = 0\<rparr>
   \<and> UTXOKeyUnpack [1, 0, 0, 0, 0, 0, 0, 0, 0, 0, 0, 0, 0, 0, 0, 0, 0, 0]
       = Inr \<lparr>Prefix = [1], HashX = [0, 0, 0, 0, 0, 0, 0, 0, 0, 0, 0], TxNum = 0, Nout = 0\<rparr>"
  by (simp add: UTXOKeyUnpack_def slice_to_def slice_range_def slice_from_def Uint32_def Uint16_def)

text \<open>
  Claim C8, as amended, at an empty key, a 17-byte key and a 19-byte key.
\<close>

theorem unpack_key_faults_witness:
  "length ([] :: byte list) < 12 \<and> UTXOKeyUnpack [] = Inl SliceBoundsOutOfRange
   \<and> 12 \<le> length [117, 1, 2, 3, 4, 5, 6, 7, 8, 9, 10, 11, 0, 0, 1, 2, 0 :: byte]
   \<and> length [117, 1, 2, 3, 4, 5, 6, 7, 8, 9, 10, 11, 0, 0, 1, 2, 0 :: byte] < 18
   \<and> UTXOKeyUnpack [117, 1, 2, 3, 4, 5, 6, 7, 8, 9, 10, 11, 0, 0, 1, 2, 0] = Inl IndexOutOfRange
   \<and> 18 \<le> length [9, 1, 2, 3, 4, 5, 6, 7, 8, 9, 10, 11, 0, 0, 1, 2, 0, 3, 4 :: byte]
   \<and> (\<exists>t n. UTXOKeyUnpack [9, 1, 2, 3, 4, 5, 6, 7, 8, 9, 10, 11, 0, 0, 1, 2, 0, 3, 4]
              = Inr \<lparr>Prefix = [9], HashX = [1, 2, 3, 4, 5, 6, 7, 8, 9, 10, 11], TxNum = t, Nout = n\<rparr>)"
  using unpack_key_faults [of "[]"]
    unpack_key_faults [of "[117, 1, 2, 3, 4, 5, 6, 7, 8, 9, 10, 11, 0, 0, 1, 2, 0]"]
    unpack_key_faults [of "[9, 1, 2, 3, 4, 5, 6, 7, 8, 9, 10, 11, 0, 0, 1, 2, 0, 3, 4]"]
  by simp blast

section \<open>Properties of search-ahead\<close>

subsection \<open>The loops and their measure\<close>

lemma go_rem_nonzero:
  "pageSize \<noteq> 0 \<Longrightarrow> go_rem (int n) pageSize = Inr (int n mod \<bar>pageSize\<bar>)"
  by (simp add: go_rem_def sgn_if)

lemma go_rem_fault: "go_rem a b = Inl e \<Longrightarrow> b = 0"
  by (simp add: go_rem_def split: if_splits)

lemma pageCheck_fault: "pageCheck pageSize finalHits c = Inl e \<Longrightarrow> pageSize = 0"
  by (auto simp: pageCheck_def dest: go_rem_fault split: if_splits sum.splits)

lemma drainLater_length:
  "drainLater cap i later finalHits c = (later', finalHits', c') \<Longrightarrow> length later' \<le> length later"
proof (induction later arbitrary: i finalHits c)
  case Nil
  then show ?case by simp
next
  case (Cons r later)
  then show ?case
    by (auto split: if_splits dest!: Cons.IH)
qed

lemma drainLater_pops:
  assumes "drainLater cap 0 later finalHits c = (later', finalHits', c')" "later \<noteq> []"
  shows "length later' < length later"
proof -
  obtain r rest where l: "later = r # rest" using assms(2) by (cases later) auto
  from assms(1) show ?thesis unfolding l
    by (auto split: if_splits dest!: drainLater_length)
qed

lemma drainHits_measure:
  "drainHits pageSize cap q later finalHits c = Inr (q', later', finalHits', c') \<Longrightarrow>
     2 * length q' + length later' \<le> 2 * length q + length later
     \<and> (q \<noteq> [] \<longrightarrow> 2 * length q' + length later' < 2 * length q + length later)"
proof (induction q arbitrary: later finalHits c)
  case Nil
  then show ?case by simp
next
  case (Cons h q)
  from Cons.prems show ?case
    by (auto split: if_splits sum.splits dest!: Cons.IH)
qed

lemma drainHits_fault:
  "drainHits pageSize cap q later finalHits c = Inl e \<Longrightarrow> pageSize = 0"
proof (induction q arbitrary: later finalHits c)
  case Nil
  then show ?case by simp
next
  case (Cons h q)
  from Cons.prems show ?case
    by (auto split: if_splits sum.splits dest: Cons.IH go_rem_fault)
qed

lemma searchLoop_rule:
  assumes I: "I q later finalHits c"
    and body: "\<And>q later finalHits c c1 later2 finalHits2 c2 q3 later3 finalHits3 c3.
      I q later finalHits c \<Longrightarrow> q \<noteq> [] \<or> later \<noteq> [] \<Longrightarrow>
      pageCheck pageSize finalHits c = Inr (Some c1) \<Longrightarrow>
      drainLater cap 0 later finalHits c1 = (later2, finalHits2, c2) \<Longrightarrow>
      drainHits pageSize cap q later2 finalHits2 c2 = Inr (q3, later3, finalHits3, c3) \<Longrightarrow>
      I q3 later3 finalHits3 c3"
  shows "\<exists>r. searchLoop pageSize cap q later finalHits c = Some r
           \<and> (case r of
                 Inl e \<Rightarrow> pageSize = 0
               | Inr out \<Rightarrow> \<exists>q' later' c'. I q' later' out c'
                    \<and> (q' = [] \<and> later' = [] \<or> pageCheck pageSize out c' = Inr None))"
  using I
proof (induction "2 * length q + length later" arbitrary: q later finalHits c rule: less_induct)
  case less
  show ?case
  proof (cases "q \<noteq> [] \<or> later \<noteq> []")
    case False
    then show ?thesis using less.prems
      by (subst searchLoop.simps) auto
  next
    case True
    show ?thesis
    proof (cases "pageCheck pageSize finalHits c")
      case (Inl e)
      then show ?thesis using True
        by (subst searchLoop.simps) (auto dest: pageCheck_fault)
    next
      case (Inr oc)
      show ?thesis
      proof (cases oc)
        case None
        then show ?thesis using True Inr less.prems
          by (subst searchLoop.simps) auto
      next
        case (Some c1)
        obtain later2 finalHits2 c2 where dl: "drainLater cap 0 later finalHits c1 = (later2, finalHits2, c2)"
          by (cases "drainLater cap 0 later finalHits c1") auto
        show ?thesis
        proof (cases "drainHits pageSize cap q later2 finalHits2 c2")
          case (Inl e)
          then show ?thesis using True Inr Some dl
            by (subst searchLoop.simps) (auto dest: drainHits_fault)
        next
          case dh: (Inr st)
          obtain q3 later3 finalHits3 c3 where st: "st = (q3, later3, finalHits3, c3)"
            by (cases st) auto
          have I3: "I q3 later3 finalHits3 c3"
            using body [OF less.prems True] Inr Some dl dh st by simp
          have m: "2 * length q3 + length later3 \<le> 2 * length q + length later2
                   \<and> (q \<noteq> [] \<longrightarrow> 2 * length q3 + length later3 < 2 * length q + length later2)"
            using drainHits_measure dh st by simp
          have l2: "length later2 \<le> length later" using dl by (rule drainLater_length)
          have "2 * length q3 + length later3 < 2 * length q + length later"
          proof (cases "q = []")
            case True
            then have "later \<noteq> []" using \<open>q \<noteq> [] \<or> later \<noteq> []\<close> by simp
            then have "length later2 < length later" using dl by (rule drainLater_pops [rotated])
            then show ?thesis using m by linarith
          next
            case False
            then show ?thesis using m l2 by linarith
          qed
          from less.hyps [OF this I3]
          show ?thesis using True Inr Some dl dh st
            by (subst searchLoop.simps) simp
        qed
      qed
    qed
  qed
qed

subsection \<open>Termination and the cap\<close>

lemma drainHits_negative_cap:
  "cap < 0 \<Longrightarrow> drainHits pageSize cap q later finalHits c = Inr ([], later, finalHits @ q, c)"
  by (induction q arbitrary: finalHits) simp_all

text \<open>
  For a cap below 0 every hit goes straight to the output, whatever the page size.
\<close>

lemma searchAhead_negative_cap:
  assumes "cap < 0"
  shows "searchAhead hits pageSize cap = Some (Inr hits)"
proof (cases "hits = []")
  case True
  then show ?thesis by (simp add: searchAhead_def searchLoop.simps)
next
  case False
  have "searchLoop pageSize cap [] [] hits Map.empty = Some (Inr hits)"
    by (simp add: searchLoop.simps)
  then show ?thesis using False assms
    by (simp add: searchAhead_def searchLoop.simps [of _ _ hits] pageCheck_def
        drainHits_negative_cap)
qed

text \<open>
  Claim C9. \<open>searchAhead\<close> returns on every input: the loop always ends, and for a page
  size of at least 1 it ends with the output slice. The page size must not be 0: with
  page size 0, a positive cap and a first hit that has a channel, the remainder
  \<^verbatim>\<open>len(finalHits) % pageSize\<close> panics.
\<close>

theorem searchAhead_returns:
  "(\<exists>r. searchAhead hits pageSize cap = Some r)
   \<and> (pageSize \<ge> 1 \<longrightarrow> (\<exists>out. searchAhead hits pageSize cap = Some (Inr out)))
   \<and> (ChannelId h \<noteq> [] \<and> cap > 0 \<longrightarrow>
        searchAhead (h # hs) 0 cap = Some (Inl IntegerDivideByZero))"
proof (intro conjI impI)
  have r: "\<exists>r. searchLoop pageSize cap hits [] [] Map.empty = Some r
           \<and> (case r of Inl e \<Rightarrow> pageSize = 0 | Inr out \<Rightarrow> True)"
    using searchLoop_rule [where I = "\<lambda>_ _ _ _. True" and q = hits and later = "[]"
        and finalHits = "[]" and c = Map.empty and pageSize = pageSize and cap = cap]
    by (auto split: sum.splits)
  then show "\<exists>r. searchAhead hits pageSize cap = Some r"
    by (auto simp: searchAhead_def)
  show "\<exists>out. searchAhead hits pageSize cap = Some (Inr out)" if "pageSize \<ge> 1"
  proof -
    from r obtain x where x: "searchLoop pageSize cap hits [] [] Map.empty = Some x"
      "case x of Inl e \<Rightarrow> pageSize = 0 | Inr out \<Rightarrow> True"
      by blast
    show ?thesis
    proof (cases x)
      case (Inl e)
      then have "pageSize = 0" using x by simp
      with that show ?thesis by simp
    next
      case (Inr out)
      then show ?thesis using x by (simp add: searchAhead_def)
    qed
  qed
  show "searchAhead (h # hs) 0 cap = Some (Inl IntegerDivideByZero)"
    if "ChannelId h \<noteq> [] \<and> cap > 0"
    using that
    by (simp add: searchAhead_def searchLoop.simps [of _ _ "h # hs"] pageCheck_def counter_def
        go_rem_def)
qed

text \<open>
  Claim C9 at two hits of one channel, with page size 3 and with page size 0.
\<close>

theorem searchAhead_returns_witness:
  "(1 :: int) \<le> 3
   \<and> (\<exists>out. searchAhead [exampleHit ''A'' ''c1'', exampleHit ''B'' ''c1''] 3 1 = Some (Inr out))
   \<and> ChannelId (exampleHit ''A'' ''c1'') \<noteq> [] \<and> (1 :: int) > 0
   \<and> searchAhead [exampleHit ''A'' ''c1'', exampleHit ''B'' ''c1''] 0 1
       = Some (Inl IntegerDivideByZero)"
  using searchAhead_returns [of "[exampleHit ''A'' ''c1'', exampleHit ''B'' ''c1'']" 3 1]
    searchAhead_returns [of _ 0 1 "exampleHit ''A'' ''c1''" "[exampleHit ''B'' ''c1'']"]
  by (simp add: exampleHit_def)

text \<open>
  Claim C5 at the cap 0: a hit that has a channel is deferred by the input loop, which
  tests \<^verbatim>\<open>perChannelPerPage < 0\<close>, and then dropped by the loop over the deferred hits,
  which tests \<^verbatim>\<open>perChannelPerPage > 0\<close>; the output is empty, not the input.
\<close>

theorem searchAhead_zero_cap_drops:
  "searchAhead [exampleHit ''A'' ''c1''] 1 0 = Some (Inr [])"
  by (simp add: searchAhead_def searchLoop.simps pageCheck_def counter_def exampleHit_def)

subsection \<open>Fair pages\<close>

lemma channelCount_append [simp]:
  "channelCount ch (xs @ ys) = channelCount ch xs + channelCount ch ys"
  by (simp add: channelCount_def)

lemma channelCount_Nil [simp]: "channelCount ch [] = 0"
  by (simp add: channelCount_def)

lemma channelCount_single [simp]:
  "channelCount ch [h] = (if ChannelId h = ch then 1 else 0)"
  by (simp add: channelCount_def)

lemma channelCount_take_drop_le:
  "channelCount ch (take a (drop b ys)) \<le> channelCount ch ys"
proof -
  have "channelCount ch (take a zs) \<le> channelCount ch zs" for zs
    by (metis append_take_drop_id channelCount_append le_add1)
  moreover have "channelCount ch (drop b ys) \<le> channelCount ch ys"
    by (metis append_take_drop_id channelCount_append le_add2)
  ultimately show ?thesis by (meson le_trans)
qed

lemma counter_update [simp]:
  "counter (c(k \<mapsto> v)) ch = (if ch = k then v else counter c ch)"
  by (simp add: counter_def)

lemma counter_empty [simp]: "counter Map.empty ch = 0"
  by (simp add: counter_def)

lemma fairInv_append_null:
  assumes "fairInv p cap f c" "ChannelId h = []"
  shows "fairInv p cap (f @ [h]) c"
proof -
  from assms(1) obtain s where s: "s \<le> length f" "p dvd s"
    "\<forall>j ch. ch \<noteq> [] \<longrightarrow> int (channelCount ch (window (j * p) p (take s f))) \<le> cap"
    "\<forall>ch. ch \<noteq> [] \<longrightarrow> int (channelCount ch (drop s f)) \<le> counter c ch \<and> counter c ch \<le> cap"
    unfolding fairInv_def by blast
  show ?thesis unfolding fairInv_def
  proof (intro exI [of _ s] conjI allI impI)
    show "s \<le> length (f @ [h])" using s(1) by simp
    show "p dvd s" by (rule s(2))
    show "int (channelCount ch (window (j * p) p (take s (f @ [h])))) \<le> cap" if "ch \<noteq> []" for j ch
      using s(1) s(3) that by simp
    show "int (channelCount ch (drop s (f @ [h]))) \<le> counter c ch" if "ch \<noteq> []" for ch
      using s(1) s(4) that assms(2) by auto
    show "counter c ch \<le> cap" if "ch \<noteq> []" for ch
      using s(4) that by simp
  qed
qed

lemma fairInv_append_counted:
  assumes "fairInv p cap f c" "counter c (ChannelId h) < cap"
  shows "fairInv p cap (f @ [h]) (c(ChannelId h \<mapsto> counter c (ChannelId h) + 1))"
proof -
  from assms(1) obtain s where s: "s \<le> length f" "p dvd s"
    "\<forall>j ch. ch \<noteq> [] \<longrightarrow> int (channelCount ch (window (j * p) p (take s f))) \<le> cap"
    "\<forall>ch. ch \<noteq> [] \<longrightarrow> int (channelCount ch (drop s f)) \<le> counter c ch \<and> counter c ch \<le> cap"
    unfolding fairInv_def by blast
  show ?thesis unfolding fairInv_def
  proof (intro exI [of _ s] conjI allI impI)
    show "s \<le> length (f @ [h])" using s(1) by simp
    show "p dvd s" by (rule s(2))
    show "int (channelCount ch (window (j * p) p (take s (f @ [h])))) \<le> cap" if "ch \<noteq> []" for j ch
      using s(1) s(3) that by simp
    show "int (channelCount ch (drop s (f @ [h])))
            \<le> counter (c(ChannelId h \<mapsto> counter c (ChannelId h) + 1)) ch" if "ch \<noteq> []" for ch
      using s(1) s(4) that by auto
    show "counter (c(ChannelId h \<mapsto> counter c (ChannelId h) + 1)) ch \<le> cap" if "ch \<noteq> []" for ch
      using s(4) that assms(2) by auto
  qed
qed

lemma window_below:
  assumes "j * p + p \<le> s"
  shows "window (j * p) p (take s xs) = window (j * p) p xs"
proof -
  have "p \<le> s - j * p" using assms by linarith
  then show ?thesis by (simp add: window_def drop_take min_absorb1)
qed

lemma window_above:
  assumes "s \<le> j * p"
  shows "channelCount ch (window (j * p) p xs) \<le> channelCount ch (drop s xs)"
proof -
  have "drop (j * p) xs = drop (j * p - s) (drop s xs)" using assms by simp
  then show ?thesis unfolding window_def by (simp only: channelCount_take_drop_le)
qed

lemma aligned_split:
  fixes p s j :: nat
  assumes "p dvd s"
  shows "j * p + p \<le> s \<or> s \<le> j * p"
proof -
  from assms obtain k where k: "s = p * k" by (auto simp: dvd_def)
  show ?thesis
  proof (cases "j < k")
    case True
    then have "Suc j \<le> k" by simp
    then have "p * Suc j \<le> p * k" by (rule mult_le_mono2)
    then show ?thesis using k by (simp add: mult.commute)
  next
    case False
    then have "k \<le> j" by simp
    then have "p * k \<le> p * j" by (rule mult_le_mono2)
    then show ?thesis using k by (simp add: mult.commute)
  qed
qed

lemma stretch_fair:
  assumes "p dvd s"
    and "\<forall>j ch. ch \<noteq> [] \<longrightarrow> int (channelCount ch (window (j * p) p (take s xs))) \<le> cap"
    and "\<forall>ch. ch \<noteq> [] \<longrightarrow> int (channelCount ch (drop s xs)) \<le> cap"
    and "ch \<noteq> []"
  shows "int (channelCount ch (window (j * p) p xs)) \<le> cap"
  using aligned_split [OF assms(1), of j]
proof
  assume "j * p + p \<le> s"
  then show ?thesis using assms(2,4) window_below [of j p s xs] by metis
next
  assume "s \<le> j * p"
  then have "channelCount ch (window (j * p) p xs) \<le> channelCount ch (drop s xs)"
    by (rule window_above)
  then have "int (channelCount ch (window (j * p) p xs)) \<le> int (channelCount ch (drop s xs))"
    by simp
  moreover have "int (channelCount ch (drop s xs)) \<le> cap" using assms(3,4) by simp
  ultimately show ?thesis by linarith
qed

lemma fairInv_fair:
  assumes "fairInv p cap f c" "ch \<noteq> []"
  shows "int (channelCount ch (window (j * p) p f)) \<le> cap"
proof -
  from assms(1) obtain s where s: "s \<le> length f" "p dvd s"
    "\<forall>j ch. ch \<noteq> [] \<longrightarrow> int (channelCount ch (window (j * p) p (take s f))) \<le> cap"
    "\<forall>ch. ch \<noteq> [] \<longrightarrow> int (channelCount ch (drop s f)) \<le> counter c ch \<and> counter c ch \<le> cap"
    unfolding fairInv_def by blast
  have "\<forall>ch. ch \<noteq> [] \<longrightarrow> int (channelCount ch (drop s f)) \<le> cap"
    using s(4) by force
  from stretch_fair [OF s(2) s(3) this assms(2)] show ?thesis .
qed

lemma fairInv_reset:
  assumes "fairInv p cap f c" "p dvd length f" "0 \<le> cap"
  shows "fairInv p cap f Map.empty"
  unfolding fairInv_def
proof (intro exI [of _ "length f"] conjI allI impI)
  show "length f \<le> length f" by simp
  show "p dvd length f" by (rule assms(2))
  show "int (channelCount ch (window (j * p) p (take (length f) f))) \<le> cap" if "ch \<noteq> []" for j ch
    using fairInv_fair [OF assms(1) that] by simp
  show "int (channelCount ch (drop (length f) f)) \<le> counter Map.empty ch" for ch
    by simp
  show "counter Map.empty ch \<le> cap" for ch
    using assms(3) by simp
qed

lemma fairInv_init: "0 \<le> cap \<Longrightarrow> fairInv p cap [] Map.empty"
  by (simp add: fairInv_def window_def)

lemma drainLater_fair:
  "fairInv p cap finalHits c \<Longrightarrow> drainLater cap i later finalHits c = (later', finalHits', c')
     \<Longrightarrow> fairInv p cap finalHits' c'"
proof (induction later arbitrary: i finalHits c)
  case Nil
  then show ?case by simp
next
  case (Cons r later)
  show ?case
  proof (cases "i < length (r # later)")
    case False
    then show ?thesis using Cons.prems by simp
  next
    case True
    show ?thesis
    proof (cases "cap > 0 \<and> counter c (ChannelId r) < cap")
      case t: True
      then have inv: "fairInv p cap (finalHits @ [r]) (c(ChannelId r \<mapsto> counter c (ChannelId r) + 1))"
        using Cons.prems(1) by (simp add: fairInv_append_counted)
      have "drainLater cap (i + 1) later (finalHits @ [r])
              (c(ChannelId r \<mapsto> counter c (ChannelId r) + 1)) = (later', finalHits', c')"
        using Cons.prems(2) True t by simp
      with inv show ?thesis by (rule Cons.IH)
    next
      case f: False
      have "drainLater cap (i + 1) later finalHits c = (later', finalHits', c')"
        using Cons.prems(2) True f by auto
      with Cons.prems(1) show ?thesis by (rule Cons.IH)
    qed
  qed
qed

lemma drainHits_fair:
  "0 < cap \<Longrightarrow> fairInv p cap finalHits c
     \<Longrightarrow> drainHits pageSize cap q later finalHits c = Inr (q', later', finalHits', c')
     \<Longrightarrow> fairInv p cap finalHits' c'"
proof (induction q arbitrary: later finalHits c)
  case Nil
  then show ?case by simp
next
  case (Cons h q)
  show ?case
  proof (cases "ChannelId h = []")
    case True
    then have inv: "fairInv p cap (finalHits @ [h]) c"
      using Cons.prems(2) by (simp add: fairInv_append_null)
    have "drainHits pageSize cap q later (finalHits @ [h]) c = Inr (q', later', finalHits', c')"
      using Cons.prems(3) True by simp
    with Cons.prems(1) inv show ?thesis by (rule Cons.IH)
  next
    case False
    show ?thesis
    proof (cases "counter c (ChannelId h) < cap")
      case t: True
      then have inv: "fairInv p cap (finalHits @ [h]) (c(ChannelId h \<mapsto> counter c (ChannelId h) + 1))"
        using Cons.prems(2) by (simp add: fairInv_append_counted)
      have "(q', later', finalHits', c')
              = (q, later, finalHits @ [h], c(ChannelId h \<mapsto> counter c (ChannelId h) + 1))
            \<or> drainHits pageSize cap q later (finalHits @ [h])
                 (c(ChannelId h \<mapsto> counter c (ChannelId h) + 1)) = Inr (q', later', finalHits', c')"
        using Cons.prems(1,3) False t by (auto split: sum.splits if_splits)
      then show ?thesis
      proof
        assume "(q', later', finalHits', c')
              = (q, later, finalHits @ [h], c(ChannelId h \<mapsto> counter c (ChannelId h) + 1))"
        then have "finalHits' = finalHits @ [h]"
          "c' = c(ChannelId h \<mapsto> counter c (ChannelId h) + 1)"
          by (simp_all only: prod.inject)
        then show ?thesis using inv by metis
      next
        assume "drainHits pageSize cap q later (finalHits @ [h])
                 (c(ChannelId h \<mapsto> counter c (ChannelId h) + 1)) = Inr (q', later', finalHits', c')"
        with Cons.prems(1) inv show ?thesis by (rule Cons.IH)
      qed
    next
      case f: False
      have "drainHits pageSize cap q (later @ [h]) finalHits c = Inr (q', later', finalHits', c')"
        using Cons.prems(1,3) False f by auto
      with Cons.prems(1,2) show ?thesis by (rule Cons.IH)
    qed
  qed
qed

lemma pageCheck_Some:
  assumes "pageCheck pageSize f c = Inr (Some c1)" "1 \<le> pageSize"
  shows "c1 = c \<and> f = [] \<or> c1 = Map.empty \<and> nat pageSize dvd length f"
proof (cases "f = []")
  case True
  then show ?thesis using assms by (simp add: pageCheck_def)
next
  case False
  have "go_rem (int (length f)) pageSize = Inr (int (length f) mod pageSize)"
    using assms(2) by (simp add: go_rem_nonzero)
  then have "c1 = Map.empty \<and> int (length f) mod pageSize = 0"
    using assms(1) False by (simp add: pageCheck_def split: if_splits)
  moreover have "nat pageSize dvd length f" if "int (length f) mod pageSize = 0"
    using that assms(2) by (simp add: nat_dvd_iff mod_eq_0_iff_dvd)
  ultimately show ?thesis by simp
qed

text \<open>
  Claim C3, as amended. For a page size of at least 1 and a cap above 0, in every page
  of the output of \<open>searchAhead\<close> (the items from \<open>j * page_size\<close> up to
  \<open>(j + 1) * page_size\<close>) no channel other than the null channel occurs more often than
  the cap.
\<close>

theorem searchAhead_page_fair:
  assumes "1 \<le> pageSize" "0 < cap" "ch \<noteq> []"
  shows "\<exists>out. searchAhead hits pageSize cap = Some (Inr out)
           \<and> int (channelCount ch (window (j * nat pageSize) (nat pageSize) out)) \<le> cap"
proof -
  let ?I = "\<lambda>(q :: hit_record list) (later :: hit_record list) f c. fairInv (nat pageSize) cap f c"
  have init: "?I hits [] [] Map.empty" using assms(2) by (simp add: fairInv_init)
  have body: "?I q3 later3 f3 c3"
    if "?I q later f c" "q \<noteq> [] \<or> later \<noteq> []" "pageCheck pageSize f c = Inr (Some c1)"
      "drainLater cap 0 later f c1 = (later2, f2, c2)"
      "drainHits pageSize cap q later2 f2 c2 = Inr (q3, later3, f3, c3)"
    for q later f c c1 later2 f2 c2 q3 later3 f3 c3
  proof -
    have "fairInv (nat pageSize) cap f c1"
      using pageCheck_Some [OF that(3) assms(1)] that(1) assms(2)
      by (auto intro: fairInv_reset)
    then have "fairInv (nat pageSize) cap f2 c2" using that(4) by (rule drainLater_fair)
    with assms(2) show ?thesis using that(5) by (rule drainHits_fair)
  qed
  have "\<exists>r. searchLoop pageSize cap hits [] [] Map.empty = Some r
          \<and> (case r of Inl e \<Rightarrow> pageSize = 0
              | Inr out \<Rightarrow> \<exists>(q' :: hit_record list) (later' :: hit_record list) c'.
                  fairInv (nat pageSize) cap out c'
                  \<and> (q' = [] \<and> later' = [] \<or> pageCheck pageSize out c' = Inr None))"
    by (rule searchLoop_rule [where I = ?I, OF init]) (rule body; assumption)
  then obtain r where r: "searchLoop pageSize cap hits [] [] Map.empty = Some r"
    "case r of Inl e \<Rightarrow> pageSize = 0
     | Inr out \<Rightarrow> \<exists>(q' :: hit_record list) (later' :: hit_record list) c'.
          fairInv (nat pageSize) cap out c'
          \<and> (q' = [] \<and> later' = [] \<or> pageCheck pageSize out c' = Inr None)"
    by blast
  show ?thesis
  proof (cases r)
    case (Inl e)
    then show ?thesis using r(2) assms(1) by simp
  next
    case (Inr out)
    then obtain c' where "fairInv (nat pageSize) cap out c'" using r(2) by auto
    from fairInv_fair [OF this assms(3)] show ?thesis using r(1) Inr by (simp add: searchAhead_def)
  qed
qed

text \<open>
  Claim C3 as stated fails for a window that straddles a page boundary: with page size 2
  and cap 1 the output is A, B, C, and the window B, C holds channel c1 twice.
\<close>

theorem searchAhead_sliding_window_counterexample:
  "searchAhead [exampleHit ''A'' ''c2'', exampleHit ''B'' ''c1'', exampleHit ''C'' ''c1''] 2 1
     = Some (Inr [exampleHit ''A'' ''c2'', exampleHit ''B'' ''c1'', exampleHit ''C'' ''c1''])
   \<and> channelCount ''c1''
        (window 1 2 [exampleHit ''A'' ''c2'', exampleHit ''B'' ''c1'', exampleHit ''C'' ''c1'']) = 2"
  by (simp add: searchAhead_def searchLoop.simps pageCheck_def counter_def exampleHit_def
      go_rem_def channelCount_def window_def)

text \<open>
  Claim C3, as amended, at the first page of six hits with page size 3 and cap 2.
\<close>

theorem searchAhead_page_fair_witness:
  "(1 :: int) \<le> 3 \<and> (0 :: int) < 2 \<and> ''c1'' \<noteq> []
   \<and> searchAhead [exampleHit ''A'' ''c1'', exampleHit ''B'' ''c1'', exampleHit ''C'' ''c1'',
                   exampleHit ''D'' ''c2'', exampleHit ''E'' ''c1'', exampleHit ''F'' ''c2''] 3 2
       = Some (Inr [exampleHit ''A'' ''c1'', exampleHit ''B'' ''c1'', exampleHit ''D'' ''c2'',
                    exampleHit ''C'' ''c1'', exampleHit ''E'' ''c1'', exampleHit ''F'' ''c2''])
   \<and> int (channelCount ''c1'' (window (0 * nat 3) (nat 3)
        [exampleHit ''A'' ''c1'', exampleHit ''B'' ''c1'', exampleHit ''D'' ''c2'',
         exampleHit ''C'' ''c1'', exampleHit ''E'' ''c1'', exampleHit ''F'' ''c2''])) \<le> 2"
proof -
  have e: "searchAhead [exampleHit ''A'' ''c1'', exampleHit ''B'' ''c1'', exampleHit ''C'' ''c1'',
                   exampleHit ''D'' ''c2'', exampleHit ''E'' ''c1'', exampleHit ''F'' ''c2''] 3 2
       = Some (Inr [exampleHit ''A'' ''c1'', exampleHit ''B'' ''c1'', exampleHit ''D'' ''c2'',
                    exampleHit ''C'' ''c1'', exampleHit ''E'' ''c1'', exampleHit ''F'' ''c2''])"
    by (simp add: searchAhead_def searchLoop.simps pageCheck_def counter_def exampleHit_def
        go_rem_def)
  show ?thesis
    using searchAhead_page_fair [of 3 2 "''c1''"
        "[exampleHit ''A'' ''c1'', exampleHit ''B'' ''c1'', exampleHit ''C'' ''c1'',
          exampleHit ''D'' ''c2'', exampleHit ''E'' ''c1'', exampleHit ''F'' ''c2'']" 0]
    unfolding e by simp
qed

subsection \<open>Hits kept and hits lost\<close>

lemma drainLater_keeps:
  "drainLater cap i later finalHits c = (later', finalHits', c') \<Longrightarrow>
     \<forall>h\<in>set later. \<not> nullChannel h \<Longrightarrow>
     mset finalHits' + mset later' \<subseteq># mset finalHits + mset later
     \<and> filter nullChannel finalHits' = filter nullChannel finalHits
     \<and> (\<forall>h\<in>set later'. \<not> nullChannel h)"
proof (induction later arbitrary: i finalHits c)
  case Nil
  then show ?case by simp
next
  case (Cons r later)
  show ?case
  proof (cases "i < length (r # later)")
    case False
    then show ?thesis using Cons.prems by simp
  next
    case True
    have nl: "\<forall>h\<in>set later. \<not> nullChannel h" and nr: "\<not> nullChannel r"
      using Cons.prems(2) by simp_all
    show ?thesis
    proof (cases "cap > 0 \<and> counter c (ChannelId r) < cap")
      case t: True
      have "drainLater cap (i + 1) later (finalHits @ [r])
              (c(ChannelId r \<mapsto> counter c (ChannelId r) + 1)) = (later', finalHits', c')"
        using Cons.prems(1) True t by simp
      from Cons.IH [OF this nl] show ?thesis using nr by simp
    next
      case f: False
      have "drainLater cap (i + 1) later finalHits c = (later', finalHits', c')"
        using Cons.prems(1) True f by auto
      from Cons.IH [OF this nl] show ?thesis
        by (auto intro: subset_mset.order_trans)
    qed
  qed
qed

lemma drainHits_keeps:
  "drainHits pageSize cap q later finalHits c = Inr (q', later', finalHits', c') \<Longrightarrow>
     \<forall>h\<in>set later. \<not> nullChannel h \<Longrightarrow>
     mset finalHits' + mset later' + mset q' = mset finalHits + mset later + mset q
     \<and> filter nullChannel finalHits' @ filter nullChannel q'
         = filter nullChannel finalHits @ filter nullChannel q
     \<and> (\<forall>h\<in>set later'. \<not> nullChannel h)
     \<and> (q' = [] \<or> go_rem (int (length finalHits')) pageSize = Inr 0)"
proof (induction q arbitrary: later finalHits c)
  case Nil
  then show ?case by simp
next
  case (Cons h q)
  show ?case
  proof (cases "ChannelId h = [] \<or> cap < 0")
    case True
    have "drainHits pageSize cap q later (finalHits @ [h]) c = Inr (q', later', finalHits', c')"
      using Cons.prems(1) True by simp
    from Cons.IH [OF this Cons.prems(2)] show ?thesis by simp
  next
    case False
    then have nn: "\<not> nullChannel h" by (simp add: nullChannel_def)
    show ?thesis
    proof (cases "counter c (ChannelId h) < cap")
      case t: True
      have "(q' = q \<and> later' = later \<and> finalHits' = finalHits @ [h]
               \<and> go_rem (int (length (finalHits @ [h]))) pageSize = Inr 0)
            \<or> drainHits pageSize cap q later (finalHits @ [h])
                 (c(ChannelId h \<mapsto> counter c (ChannelId h) + 1)) = Inr (q', later', finalHits', c')"
        using Cons.prems(1) False t by (auto split: sum.splits if_splits)
      then show ?thesis
      proof
        assume "q' = q \<and> later' = later \<and> finalHits' = finalHits @ [h]
               \<and> go_rem (int (length (finalHits @ [h]))) pageSize = Inr 0"
        then show ?thesis using nn Cons.prems(2) by simp
      next
        assume "drainHits pageSize cap q later (finalHits @ [h])
                 (c(ChannelId h \<mapsto> counter c (ChannelId h) + 1)) = Inr (q', later', finalHits', c')"
        from Cons.IH [OF this Cons.prems(2)] show ?thesis using nn by simp
      qed
    next
      case f: False
      have d: "drainHits pageSize cap q (later @ [h]) finalHits c = Inr (q', later', finalHits', c')"
        using Cons.prems(1) False f by auto
      have "\<forall>x\<in>set (later @ [h]). \<not> nullChannel x" using Cons.prems(2) nn by simp
      from Cons.IH [OF d this] show ?thesis using nn by simp
    qed
  qed
qed

lemma keepInv_body:
  assumes "keepInv hits pageSize q later f"
    and "drainLater cap 0 later f c1 = (later2, f2, c2)"
    and "drainHits pageSize cap q later2 f2 c2 = Inr (q3, later3, f3, c3)"
  shows "keepInv hits pageSize q3 later3 f3"
proof -
  have k: "mset f + mset later + mset q \<subseteq># mset hits"
    "filter nullChannel f @ filter nullChannel q = filter nullChannel hits"
    "\<forall>h\<in>set later. \<not> nullChannel h"
    using assms(1) by (simp_all add: keepInv_def)
  from drainLater_keeps [OF assms(2) k(3)]
  have l: "mset f2 + mset later2 \<subseteq># mset f + mset later"
    "filter nullChannel f2 = filter nullChannel f" "\<forall>h\<in>set later2. \<not> nullChannel h"
    by simp_all
  from drainHits_keeps [OF assms(3) l(3)]
  have h: "mset f3 + mset later3 + mset q3 = mset f2 + mset later2 + mset q"
    "filter nullChannel f3 @ filter nullChannel q3 = filter nullChannel f2 @ filter nullChannel q"
    "\<forall>h\<in>set later3. \<not> nullChannel h"
    "q3 = [] \<or> go_rem (int (length f3)) pageSize = Inr 0"
    by simp_all
  have "mset f2 + mset later2 + mset q \<subseteq># mset f + mset later + mset q"
    using l(1) by (simp add: subset_mset.add_right_mono)
  then have "mset f3 + mset later3 + mset q3 \<subseteq># mset hits"
    using h(1) k(1) by (metis subset_mset.order_trans)
  then show ?thesis using h(2,3,4) l(2) k(2) by (auto simp: keepInv_def)
qed

text \<open>
  Claim C4, as amended. For a page size of at least 1 \<open>searchAhead\<close> returns a
  rearrangement of part of the input: every hit of the output is a hit of the input, no
  more often than it occurs there, and the hits without a channel are all kept, in their
  input order.
\<close>

theorem searchAhead_keeps_hits:
  assumes "1 \<le> pageSize"
  shows "\<exists>out. searchAhead hits pageSize cap = Some (Inr out)
           \<and> mset out \<subseteq># mset hits
           \<and> filter nullChannel out = filter nullChannel hits"
proof -
  let ?I = "\<lambda>q later f (c :: counters). keepInv hits pageSize q later f"
  have init: "?I hits [] [] Map.empty" by (simp add: keepInv_def)
  have "\<exists>r. searchLoop pageSize cap hits [] [] Map.empty = Some r
          \<and> (case r of Inl e \<Rightarrow> pageSize = 0
              | Inr out \<Rightarrow> \<exists>q' later' c'. keepInv hits pageSize q' later' out
                  \<and> (q' = [] \<and> later' = [] \<or> pageCheck pageSize out c' = Inr None))"
    by (rule searchLoop_rule [where I = ?I, OF init]) (rule keepInv_body)
  then obtain r where r: "searchLoop pageSize cap hits [] [] Map.empty = Some r"
    "case r of Inl e \<Rightarrow> pageSize = 0
     | Inr out \<Rightarrow> \<exists>q' later' c'. keepInv hits pageSize q' later' out
          \<and> (q' = [] \<and> later' = [] \<or> pageCheck pageSize out c' = Inr None)"
    by blast
  show ?thesis
  proof (cases r)
    case (Inl e)
    then show ?thesis using r(2) assms by simp
  next
    case (Inr out)
    then obtain q' later' c' where k: "keepInv hits pageSize q' later' out"
      and x: "q' = [] \<and> later' = [] \<or> pageCheck pageSize out c' = Inr None"
      using r(2) by auto
    have "q' = []"
    proof (rule ccontr)
      assume n: "q' \<noteq> []"
      then have "pageCheck pageSize out c' = Inr None" using x by simp
      moreover have "out = [] \<or> go_rem (int (length out)) pageSize = Inr 0"
        using k n by (simp add: keepInv_def)
      ultimately show False by (auto simp: pageCheck_def split: if_splits)
    qed
    then have "filter nullChannel out = filter nullChannel hits"
      using k by (simp add: keepInv_def)
    moreover have "mset out + mset later' + mset q' \<subseteq># mset hits"
      using k by (simp add: keepInv_def)
    then have "mset out \<subseteq># mset hits"
      by (metis mset_subset_eq_add_left subset_mset.order_trans)
    ultimately show ?thesis using r(1) Inr by (simp add: searchAhead_def)
  qed
qed

text \<open>
  Claim C4 as stated fails: with page size 3 and cap 1 the input A, B, C (channels c1,
  c1, c2) gives A, C, which is not a permutation of the first two hits; B waits in the
  deferred queue when the loop stops at the incomplete page.
\<close>

theorem searchAhead_prefix_counterexample:
  "searchAhead [exampleHit ''A'' ''c1'', exampleHit ''B'' ''c1'', exampleHit ''C'' ''c2''] 3 1
     = Some (Inr [exampleHit ''A'' ''c1'', exampleHit ''C'' ''c2''])
   \<and> mset [exampleHit ''A'' ''c1'', exampleHit ''C'' ''c2'']
       \<noteq> mset (take (length [exampleHit ''A'' ''c1'', exampleHit ''C'' ''c2''])
                 [exampleHit ''A'' ''c1'', exampleHit ''B'' ''c1'', exampleHit ''C'' ''c2''])"
  by (simp add: searchAhead_def searchLoop.simps pageCheck_def counter_def exampleHit_def
      go_rem_def)

text \<open>
  Claim C4, as amended, at four hits, one without a channel, with page size 4 and cap 1.
\<close>

theorem searchAhead_keeps_hits_witness:
  "(1 :: int) \<le> 4
   \<and> searchAhead [exampleHit ''A'' ''c1'', exampleHit ''N'' [], exampleHit ''B'' ''c1'',
                   exampleHit ''C'' ''c2''] 4 1
       = Some (Inr [exampleHit ''A'' ''c1'', exampleHit ''N'' [], exampleHit ''C'' ''c2''])
   \<and> mset [exampleHit ''A'' ''c1'', exampleHit ''N'' [], exampleHit ''C'' ''c2'']
       \<subseteq># mset [exampleHit ''A'' ''c1'', exampleHit ''N'' [], exampleHit ''B'' ''c1'',
                 exampleHit ''C'' ''c2'']
   \<and> filter nullChannel [exampleHit ''A'' ''c1'', exampleHit ''N'' [], exampleHit ''C'' ''c2'']
       = filter nullChannel [exampleHit ''A'' ''c1'', exampleHit ''N'' [], exampleHit ''B'' ''c1'',
                 exampleHit ''C'' ''c2'']"
proof -
  have e: "searchAhead [exampleHit ''A'' ''c1'', exampleHit ''N'' [], exampleHit ''B'' ''c1'',
                   exampleHit ''C'' ''c2''] 4 1
       = Some (Inr [exampleHit ''A'' ''c1'', exampleHit ''N'' [], exampleHit ''C'' ''c2''])"
    by (simp add: searchAhead_def searchLoop.simps pageCheck_def counter_def exampleHit_def
        go_rem_def)
  show ?thesis
    using searchAhead_keeps_hits [of 4 "[exampleHit ''A'' ''c1'', exampleHit ''N'' [],
        exampleHit ''B'' ''c1'', exampleHit ''C'' ''c2'']" 1]
    unfolding e by simp
qed

text \<open>
  What the loop over the deferred hits does with more than one deferred hit. In the
  first run C (channel c1) is not looked at on the second page, because the bound of the
  loop shrinks with every pop, and comes out after Z, a later hit of its channel. In
  the second run C is popped while c1 is at the cap and is not pushed back: it never
  comes out, although D and E after it do.
\<close>

lemma searchAhead_later_queue_example:
  "searchAhead [exampleHit ''A'' ''c1'', exampleHit ''P'' ''c2'', exampleHit ''B'' ''c2'',
                exampleHit ''C'' ''c1'', exampleHit ''Q'' ''c3'', exampleHit ''Z'' ''c1'',
                exampleHit ''R'' ''c4''] 3 1
     = Some (Inr [exampleHit ''A'' ''c1'', exampleHit ''P'' ''c2'', exampleHit ''Q'' ''c3'',
                  exampleHit ''B'' ''c2'', exampleHit ''Z'' ''c1'', exampleHit ''R'' ''c4'',
                  exampleHit ''C'' ''c1''])
   \<and> searchAhead [exampleHit ''A'' ''c1'', exampleHit ''B'' ''c1'', exampleHit ''C'' ''c1'',
                  exampleHit ''D'' ''c1'', exampleHit ''E'' ''c1'', exampleHit ''F'' ''c2'',
                  exampleHit ''G'' ''c3'', exampleHit ''H'' ''c4''] 2 1
     = Some (Inr [exampleHit ''A'' ''c1'', exampleHit ''F'' ''c2'', exampleHit ''B'' ''c1'',
                  exampleHit ''G'' ''c3'', exampleHit ''D'' ''c1'', exampleHit ''H'' ''c4'',
                  exampleHit ''E'' ''c1''])"
  by (simp add: searchAhead_def searchLoop.simps pageCheck_def counter_def exampleHit_def
      go_rem_def)

section \<open>Properties of the iteration engine\<close>








subsection \<open>A sorted store\<close>


















subsection \<open>The iteration claims\<close>






end
